theory Spec2Isabelle
  imports Main "HOL-Library.Sublist"
begin

section \<open>Shallow embedding of server.js\<close>

text \<open>
  The server keeps its state in module-level variables and reacts to HTTP requests,
  WebSocket messages and an interval timer. The embedding makes the module variables a
  record that every operation takes and returns, and makes what an operation does to the
  outside world (console lines, \<open>ws.send\<close> calls, timer calls) a list of actions in the
  order in which the code performs them. Results of the external collaborators
  (puppeteer's \<open>launch\<close>, \<open>newPage\<close>, \<open>goto\<close>, \<open>close\<close> and \<open>page.evaluate\<close>) are
  parameters: a rejected promise is \<open>Inl\<close> of the error's message.

  A string is a \<open>char list\<close>: the sequence of its characters (of its bytes, for text
  outside ASCII). \<open>String.prototype.toLowerCase\<close> is a built-in of the runtime with
  the case tables of Unicode behind it; the source does not define it, so the functions
  that call it take it as their first argument \<open>lc\<close>, and every statement about them
  holds for whatever function it is. The concrete examples, all on ASCII text, use
  \<open>ascii_toLowerCase\<close>, which is what \<open>toLowerCase\<close> does there. \<open>toUpperCase\<close> is only
  applied to the type of a log line, which is \<open>info\<close> or \<open>error\<close> at every call of
  \<open>log\<close> in the source.

  Values are taken at the types the protocol gives them: a trigger is an object with a
  string \<open>word\<close>, a chat entry has a string username and a string text. The
  \<open>triggers\<close> of a \<open>setTriggers\<close> message are an array of such objects, or are missing
  (\<open>undefined\<close>), or are \<open>null\<close>; the variable \<open>triggerWords\<close> holds what the last
  message put there. A \<open>send\<close> on a socket and a console line do not throw. The HTTP
  routes and the bookkeeping of connections are outside the embedding: the list of
  clients is part of the state as the operations find it.
\<close>

subsection \<open>Strings\<close>

text \<open>Lower case and upper case of the ASCII letters; every other character stays.\<close>

definition ascii_toLowerCase_char :: "char \<Rightarrow> char" where
  "ascii_toLowerCase_char c =
     (let n = (of_char c :: nat) in if 65 \<le> n \<and> n \<le> 90 then char_of (n + 32) else c)"

definition toUpperCase_char :: "char \<Rightarrow> char" where
  "toUpperCase_char c =
     (let n = (of_char c :: nat) in if 97 \<le> n \<and> n \<le> 122 then char_of (n - 32) else c)"

definition ascii_toLowerCase :: "string \<Rightarrow> string" where
  "ascii_toLowerCase s = map ascii_toLowerCase_char s"

definition toUpperCase :: "string \<Rightarrow> string" where
  "toUpperCase s = map toUpperCase_char s"

text \<open>\<open>s.includes(sub)\<close>: \<open>sub\<close> occurs in \<open>s\<close> as a contiguous run of characters.\<close>

fun includes_js :: "string \<Rightarrow> string \<Rightarrow> bool" where
  "includes_js [] sub = (sub = [])"
| "includes_js (c # cs) sub = (prefix sub (c # cs) \<or> includes_js cs sub)"

text \<open>The decimal rendering of a number inside a template string.\<close>

definition digit_char :: "nat \<Rightarrow> char" where
  "digit_char d = char_of (48 + d)"

function string_of_nat :: "nat \<Rightarrow> string" where
  "string_of_nat n =
     (if n < 10 then [digit_char n] else string_of_nat (n div 10) @ [digit_char (n mod 10)])"
  by pat_completeness auto
termination
  by (relation "measure (\<lambda>n. n)") auto

subsection \<open>Data\<close>

record trigger =
  word :: string

text \<open>
  The object built for each \<open>.chat-message\<close> element:
  \<open>{ id: `${username}:${text}`, username, text }\<close>.
\<close>

record message =
  msg_id :: string
  username :: string
  msg_text :: string

text \<open>
  What the variable \<open>triggerWords\<close> can hold: an array of triggers, or the
  \<open>undefined\<close> or \<open>null\<close> that a \<open>setTriggers\<close> message without an array leaves there.
\<close>

datatype triggers_value = Undefined | Null | Words "trigger list"

datatype ready_state = CONNECTING | OPEN | CLOSING | CLOSED

record client =
  cid :: nat
  readyState :: ready_state

text \<open>
  The two JSON messages the server sends: \<open>{type: 'log', message, logType}\<close> and
  \<open>{type: 'trigger', trigger, message}\<close>.
\<close>

datatype wsmsg =
  LogMessage string string
| TriggerMessage string string

text \<open>
  What the server does to the outside: a line on the console (for an error: its message,
  without the stack that \<open>console.error\<close> prints after it), a \<open>send\<close> on the socket of
  a client, and the two timer calls.
\<close>

datatype action =
  Console string
| ConsoleError string
| Send nat wsmsg
| SetInterval nat
| ClearInterval

text \<open>
  The module variables. \<open>browser\<close>, \<open>page\<close> and \<open>checkInterval\<close> are \<open>True\<close> when the
  variable holds a handle and \<open>False\<close> when it is \<open>null\<close>. \<open>lastMessages\<close> is a
  JavaScript \<open>Set\<close>: its elements in insertion order.
\<close>

record state =
  browser :: bool
  page :: bool
  isMonitoring :: bool
  mixcloudUrl :: string
  lastMessages :: "string list"
  checkInterval :: bool
  triggerWords :: triggers_value
  clients :: "client list"

definition initial_state :: state where
  "initial_state =
     \<lparr>browser = False, page = False, isMonitoring = False, mixcloudUrl = [],
      lastMessages = [], checkInterval = False, triggerWords = Words [], clients = []\<rparr>"

subsection \<open>The JavaScript Set and \<open>slice\<close>\<close>

text \<open>\<open>set.add(x)\<close> appends \<open>x\<close> unless it is already an element.\<close>

definition set_add :: "'a list \<Rightarrow> 'a \<Rightarrow> 'a list" where
  "set_add S x = (if x \<in> set S then S else S @ [x])"

text \<open>\<open>new Set(xs)\<close> adds the elements of \<open>xs\<close> one by one to an empty set.\<close>

definition new_Set :: "'a list \<Rightarrow> 'a list" where
  "new_Set xs = foldl set_add [] xs"

text \<open>\<open>xs.slice(-n)\<close>: the last \<open>n\<close> elements, all of them when there are fewer.\<close>

definition slice_last :: "nat \<Rightarrow> 'a list \<Rightarrow> 'a list" where
  "slice_last n xs = drop (length xs - n) xs"

subsection \<open>Broadcast and log\<close>

definition broadcastMessage :: "client list \<Rightarrow> wsmsg \<Rightarrow> action list" where
  "broadcastMessage cs m =
     map (\<lambda>c. Send (cid c) m) (filter (\<lambda>c. readyState c = OPEN) cs)"

definition log :: "client list \<Rightarrow> string \<Rightarrow> string \<Rightarrow> action list" where
  "log cs m t =
     Console (''['' @ toUpperCase t @ ''] '' @ m) # broadcastMessage cs (LogMessage m t)"

subsection \<open>checkForTriggers\<close>

text \<open>The mapping inside the second \<open>page.evaluate\<close>, over (username, text) pairs.\<close>

definition scrape :: "(string \<times> string) list \<Rightarrow> message list" where
  "scrape entries =
     map (\<lambda>(u, t). \<lparr>msg_id = u @ '':'' @ t, username = u, msg_text = t\<rparr>) entries"

definition newMessages :: "string list \<Rightarrow> message list \<Rightarrow> message list" where
  "newMessages seen messages = filter (\<lambda>msg. msg_id msg \<notin> set seen) messages"

definition update_lastMessages :: "string list \<Rightarrow> message list \<Rightarrow> string list" where
  "update_lastMessages seen new = new_Set (slice_last 50 seen @ map msg_id new)"

text \<open>What the body of the \<open>if\<close> in the inner loop does: one \<open>log\<close>, one broadcast.\<close>

definition detection :: "client list \<Rightarrow> message \<Rightarrow> trigger \<Rightarrow> action list" where
  "detection cs m t =
     log cs (''Trigger \"'' @ word t @ ''\" detected in message from '' @ username m) ''info''
     @ broadcastMessage cs (TriggerMessage (word t) (username m @ '': '' @ msg_text m))"

text \<open>The inner loop over \<open>triggerWords\<close>, left at the first match by \<open>break\<close>.\<close>

fun check_triggers ::
  "(string \<Rightarrow> string) \<Rightarrow> client list \<Rightarrow> message \<Rightarrow> trigger list \<Rightarrow> action list" where
  "check_triggers lc cs m [] = []"
| "check_triggers lc cs m (t # ts) =
     (if includes_js (lc (msg_text m)) (lc (word t))
      then detection cs m t
      else check_triggers lc cs m ts)"

text \<open>The body of the outer loop: \<open>if (!message.text) continue;\<close> and the inner loop.\<close>

definition process_message ::
  "(string \<Rightarrow> string) \<Rightarrow> client list \<Rightarrow> trigger list \<Rightarrow> message \<Rightarrow> action list" where
  "process_message lc cs ts m = (if msg_text m = [] then [] else check_triggers lc cs m ts)"

definition process_messages ::
  "(string \<Rightarrow> string) \<Rightarrow> client list \<Rightarrow> trigger list \<Rightarrow> message list \<Rightarrow> action list" where
  "process_messages lc cs ts ms = concat (map (process_message lc cs ts) ms)"

text \<open>
  A run of \<open>checkForTriggers\<close> is suspended at each of its two \<open>await page.evaluate\<close>.
  The three functions below are its three synchronous parts; the flag returned by the
  first two says whether the run goes on to the next \<open>await\<close>.
\<close>

definition tick_begin :: "state \<Rightarrow> bool" where
  "tick_begin s = (\<not> (\<not> isMonitoring s \<or> \<not> page s))"

definition error_log :: "state \<Rightarrow> string \<Rightarrow> action list" where
  "error_log s e = log (clients s) (''Error checking for triggers: '' @ e) ''error''"

text \<open>
  After the first \<open>await\<close>: \<open>hasChat\<close> is what \<open>page.evaluate\<close> gave. When the chat is
  there the code calls \<open>page.evaluate\<close> again, which throws a TypeError inside the \<open>try\<close>
  when \<open>page\<close> has become \<open>null\<close> in the meantime.
\<close>

definition tick_hasChat :: "state \<Rightarrow> string + bool \<Rightarrow> action list \<times> bool" where
  "tick_hasChat s hasChat =
     (case hasChat of
        Inl e \<Rightarrow> (error_log s e, False)
      | Inr False \<Rightarrow> (log (clients s) ''Waiting for chat to load...'' ''info'', False)
      | Inr True \<Rightarrow>
          (if page s then ([], True)
           else (error_log s ''Cannot read properties of null (reading 'evaluate')'', False)))"

text \<open>
  The outer loop over the new messages. When \<open>triggerWords\<close> holds no array, the
  \<open>for ... of triggerWords\<close> of the first message with a text throws a TypeError,
  which the \<open>catch\<close> of \<open>checkForTriggers\<close> logs; messages without a text are skipped
  before that.
\<close>

definition process_new :: "(string \<Rightarrow> string) \<Rightarrow> state \<Rightarrow> message list \<Rightarrow> action list" where
  "process_new lc s new =
     (case triggerWords s of
        Words ts \<Rightarrow> process_messages lc (clients s) ts new
      | _ \<Rightarrow>
          (if list_ex (\<lambda>m. msg_text m \<noteq> []) new
           then error_log s ''triggerWords is not iterable'' else []))"

text \<open>After the second \<open>await\<close>: filter, update \<open>lastMessages\<close>, process the new messages.\<close>

definition tick_messages ::
  "(string \<Rightarrow> string) \<Rightarrow> state \<Rightarrow> string + (string \<times> string) list \<Rightarrow> state \<times> action list" where
  "tick_messages lc s res =
     (case res of
        Inl e \<Rightarrow> (s, error_log s e)
      | Inr entries \<Rightarrow>
          (let messages = scrape entries;
               new = newMessages (lastMessages s) messages
           in (s\<lparr>lastMessages := update_lastMessages (lastMessages s) new\<rparr>,
               process_new lc s new)))"

text \<open>A run with nothing else happening at its \<open>await\<close>s.\<close>

definition checkForTriggers ::
  "(string \<Rightarrow> string) \<Rightarrow> state \<Rightarrow> string + bool \<Rightarrow> string + (string \<times> string) list
     \<Rightarrow> state \<times> action list" where
  "checkForTriggers lc s hasChat res =
     (if \<not> tick_begin s then (s, [])
      else (case tick_hasChat s hasChat of
              (acts, False) \<Rightarrow> (s, acts)
            | (acts, True) \<Rightarrow>
                (case tick_messages lc s res of (s', acts') \<Rightarrow> (s', acts @ acts'))))"

subsection \<open>stopMonitoring and startMonitoring\<close>

text \<open>
  \<open>closed\<close> is the outcome of \<open>await browser.close()\<close>, read only when the code makes
  the call. A rejection leaves the function at that point: nothing after it runs.
  The third component of the result is what the promise settles to.
\<close>

definition stopMonitoring ::
  "state \<Rightarrow> string + unit \<Rightarrow> state \<times> action list \<times> (string + bool)" where
  "stopMonitoring s closed =
     (let s1 = (if checkInterval s then s\<lparr>checkInterval := False\<rparr> else s);
          a1 = (if checkInterval s then [ClearInterval] else [])
      in case (if browser s1 then closed else Inr ()) of
           Inl e \<Rightarrow> (s1, a1, Inl e)
         | Inr _ \<Rightarrow>
             (let s2 = (if browser s1 then s1\<lparr>browser := False, page := False\<rparr> else s1);
                  s3 = s2\<lparr>isMonitoring := False, lastMessages := []\<rparr>
              in (s3, a1 @ log (clients s3) ''Monitoring stopped'' ''info'', Inr True)))"

text \<open>
  How far the acquisition of the page gets: \<open>puppeteer.launch\<close>, \<open>browser.newPage\<close>
  and \<open>page.goto\<close> are awaited in this order and each may reject.
\<close>

datatype acquire = LaunchFails string | NewPageFails string | GotoFails string | Acquired

definition start_failed :: "state \<Rightarrow> action list \<Rightarrow> string \<Rightarrow> state \<times> action list \<times> (string + bool)" where
  "start_failed s acts e =
     (s, acts @ log (clients s) (''Error starting monitoring: '' @ e) ''error'', Inl e)"

definition startMonitoring ::
  "state \<Rightarrow> string \<Rightarrow> string + unit \<Rightarrow> acquire \<Rightarrow> state \<times> action list \<times> (string + bool)" where
  "startMonitoring s url closed acq =
     (case (if isMonitoring s then stopMonitoring s closed else (s, [], Inr True)) of
        (s1, a1, Inl e) \<Rightarrow> (s1, a1, Inl e)
      | (s1, a1, Inr _) \<Rightarrow>
          (let a2 = a1 @ log (clients s1) (''Starting browser for: '' @ url) ''info''
           in case acq of
                LaunchFails e \<Rightarrow> start_failed s1 a2 e
              | NewPageFails e \<Rightarrow> start_failed (s1\<lparr>browser := True\<rparr>) a2 e
              | GotoFails e \<Rightarrow> start_failed (s1\<lparr>browser := True, page := True\<rparr>) a2 e
              | Acquired \<Rightarrow>
                  (s1\<lparr>browser := True, page := True, mixcloudUrl := url,
                      isMonitoring := True, lastMessages := [], checkInterval := True\<rparr>,
                   a2 @ log (clients s1) ''Connected to Mixcloud stream'' ''info''
                      @ [SetInterval 3000],
                   Inr True)))"

subsection \<open>The WebSocket message handler\<close>

text \<open>
  What \<open>JSON.parse(message)\<close> gives: it throws, or the data is a \<open>setTriggers\<close>
  message with the value of its \<open>triggers\<close>, or the data has another \<open>type\<close>.
  The handler assigns \<open>triggerWords\<close> first; reading \<open>length\<close> of \<open>undefined\<close> or
  \<open>null\<close> then throws before \<open>ws.send\<close>, and the \<open>catch\<close> writes the error to the
  console.
\<close>

datatype client_data = Unparsable string | SetTriggers triggers_value | OtherType

definition on_message :: "state \<Rightarrow> nat \<Rightarrow> client_data \<Rightarrow> state \<times> action list" where
  "on_message s ws d =
     (case d of
        Unparsable e \<Rightarrow> (s, [ConsoleError (''Error processing message: '' @ e)])
      | SetTriggers v \<Rightarrow>
          (case v of
             Words ts \<Rightarrow>
               (s\<lparr>triggerWords := Words ts\<rparr>,
                [Send ws (LogMessage
                   (''Updated '' @ string_of_nat (length ts) @ '' trigger words'') ''info'')])
           | Undefined \<Rightarrow>
               (s\<lparr>triggerWords := Undefined\<rparr>,
                [ConsoleError (''Error processing message: ''
                   @ ''Cannot read properties of undefined (reading 'length')'')])
           | Null \<Rightarrow>
               (s\<lparr>triggerWords := Null\<rparr>,
                [ConsoleError (''Error processing message: ''
                   @ ''Cannot read properties of null (reading 'length')'')]))
      | OtherType \<Rightarrow> (s, []))"

subsection \<open>The interval timer and runs suspended at an await\<close>

text \<open>
  \<open>setInterval(checkForTriggers, 3000)\<close> calls the async function at every firing and
  does nothing with the promise it returns. A configuration holds the module state, the
  runs of \<open>checkForTriggers\<close> that are suspended (each at its first or its second
  \<open>await\<close>) and the actions performed so far. An event is a firing of the timer or the
  settling of the promise that the run at a position of \<open>inflight\<close> awaits.
\<close>

datatype tick_pc = AwaitHasChat | AwaitMessages

record config =
  st :: state
  inflight :: "tick_pc list"
  performed :: "action list"

datatype event =
  Fire
| HasChatSettled nat "string + bool"
| MessagesSettled nat "string + (string \<times> string) list"

definition remove_nth :: "nat \<Rightarrow> 'a list \<Rightarrow> 'a list" where
  "remove_nth i xs = take i xs @ drop (Suc i) xs"

fun step :: "(string \<Rightarrow> string) \<Rightarrow> config \<Rightarrow> event \<Rightarrow> config option" where
  "step lc c Fire =
     (if \<not> checkInterval (st c) then None
      else if tick_begin (st c) then Some (c\<lparr>inflight := inflight c @ [AwaitHasChat]\<rparr>)
      else Some c)"
| "step lc c (HasChatSettled i r) =
     (if i < length (inflight c) \<and> inflight c ! i = AwaitHasChat
      then (case tick_hasChat (st c) r of
              (acts, True) \<Rightarrow>
                Some (c\<lparr>inflight := (inflight c)[i := AwaitMessages],
                        performed := performed c @ acts\<rparr>)
            | (acts, False) \<Rightarrow>
                Some (c\<lparr>inflight := remove_nth i (inflight c),
                        performed := performed c @ acts\<rparr>))
      else None)"
| "step lc c (MessagesSettled i r) =
     (if i < length (inflight c) \<and> inflight c ! i = AwaitMessages
      then (case tick_messages lc (st c) r of
              (s', acts) \<Rightarrow>
                Some (c\<lparr>st := s', inflight := remove_nth i (inflight c),
                        performed := performed c @ acts\<rparr>))
      else None)"

fun run :: "(string \<Rightarrow> string) \<Rightarrow> config \<Rightarrow> event list \<Rightarrow> config option" where
  "run lc c [] = Some c"
| "run lc c (e # es) = (case step lc c e of None \<Rightarrow> None | Some c' \<Rightarrow> run lc c' es)"

subsection \<open>Reading the actions\<close>

text \<open>The trigger messages among some actions: receiver, trigger word, rendered message.\<close>

fun trigger_sends :: "action list \<Rightarrow> (nat \<times> string \<times> string) list" where
  "trigger_sends [] = []"
| "trigger_sends (Send c (TriggerMessage w r) # acts) = (c, w, r) # trigger_sends acts"
| "trigger_sends (a # acts) = trigger_sends acts"

subsection \<open>Concrete states and inputs\<close>

text \<open>A session started on a URL with one open listener and the trigger word \<open>giveaway\<close>.\<close>

definition listening_state :: state where
  "listening_state =
     initial_state\<lparr>clients := [\<lparr>cid = 1, readyState = OPEN\<rparr>],
                    triggerWords := Words [\<lparr>word = ''giveaway''\<rparr>]\<rparr>"

definition active_state :: state where
  "active_state =
     fst (startMonitoring listening_state ''https://www.mixcloud.com/live/dj/'' (Inr ()) Acquired)"

text \<open>A sample of \<open>n\<close> chat entries with pairwise different usernames.\<close>

definition many_entries :: "nat \<Rightarrow> (string \<times> string) list" where
  "many_entries n = map (\<lambda>k. (replicate (Suc k) CHR ''a'', ''hi'')) [0..<n]"

text \<open>The state after the first tick of the session has seen alice's message.\<close>

definition alice_seen_state :: state where
  "alice_seen_state =
     fst (checkForTriggers ascii_toLowerCase active_state (Inr True)
            (Inr [(''alice'', ''any giveaway soon?'')]))"

text \<open>The session with an empty trigger word between two other words.\<close>

definition empty_word_state :: state where
  "empty_word_state =
     active_state\<lparr>triggerWords :=
       Words ([\<lparr>word = ''giveaway''\<rparr>] @ \<lparr>word = []\<rparr> # [\<lparr>word = ''hi''\<rparr>])\<rparr>"

text \<open>The configuration right after the start of the session: no run in flight.\<close>

definition active_config :: config where
  "active_config = \<lparr>st = active_state, inflight = [], performed = []\<rparr>"

text \<open>
  A page that shows 51 messages: zoe's, which holds the trigger word, and 50 others.
  \<open>crowded_state\<close> is the session after its first tick on that page.
\<close>

definition crowded_page :: "(string \<times> string) list" where
  "crowded_page = (''zoe'', ''giveaway'') # map (\<lambda>k. (string_of_nat k, ''hi'')) [0..<50]"

definition crowded_state :: state where
  "crowded_state =
     fst (checkForTriggers ascii_toLowerCase active_state (Inr True) (Inr crowded_page))"

text \<open>The session of the collision example: the trigger word is \<open>c\<close>.\<close>

definition collision_state :: state where
  "collision_state = active_state\<lparr>triggerWords := Words [\<lparr>word = ''c''\<rparr>]\<rparr>"

section \<open>The seen set\<close>

lemma set_foldl_set_add: "set (foldl set_add acc xs) = set acc \<union> set xs"
  by (induction xs arbitrary: acc) (auto simp: set_add_def)

lemma length_foldl_set_add: "length (foldl set_add acc xs) \<le> length acc + length xs"
proof (induction xs arbitrary: acc)
  case Nil
  then show ?case by simp
next
  case (Cons x xs)
  have "length (foldl set_add (set_add acc x) xs) \<le> length (set_add acc x) + length xs"
    by (rule Cons.IH)
  moreover have "length (set_add acc x) \<le> Suc (length acc)"
    by (simp add: set_add_def)
  ultimately show ?case by simp
qed

lemma length_new_Set: "length (new_Set xs) \<le> length xs"
  using length_foldl_set_add [of "[]" xs] by (simp add: new_Set_def)

lemma length_slice_last: "length (slice_last n xs) = min n (length xs)"
  by (simp add: slice_last_def)

lemma length_update_lastMessages:
  "length (update_lastMessages seen new) \<le> 50 + length new"
proof -
  have "length (update_lastMessages seen new) \<le> length (slice_last 50 seen @ map msg_id new)"
    unfolding update_lastMessages_def by (rule length_new_Set)
  also have "\<dots> \<le> 50 + length new"
    by (simp add: length_slice_last)
  finally show ?thesis .
qed

lemma checkForTriggers_update:
  assumes "isMonitoring s" and "page s"
  shows "checkForTriggers lc s (Inr True) (Inr entries) =
           (s\<lparr>lastMessages :=
                update_lastMessages (lastMessages s) (newMessages (lastMessages s) (scrape entries))\<rparr>,
            process_new lc s
              (newMessages (lastMessages s) (scrape entries)))"
  using assms
  by (simp add: checkForTriggers_def tick_begin_def tick_hasChat_def tick_messages_def Let_def)

lemma process_new_Nil: "process_new lc s [] = []"
  by (simp add: process_new_def process_messages_def split: triggers_value.splits)


lemma set_new_Set: "set (new_Set xs) = set xs"
  by (simp add: new_Set_def set_foldl_set_add)

lemma distinct_foldl_set_add: "distinct acc \<Longrightarrow> distinct (foldl set_add acc xs)"
  by (induction xs arbitrary: acc) (auto simp: set_add_def)

lemma distinct_new_Set: "distinct (new_Set xs)"
  by (simp add: new_Set_def distinct_foldl_set_add)

lemma foldl_set_add_distinct:
  "distinct (acc @ xs) \<Longrightarrow> foldl set_add acc xs = acc @ xs"
  by (induction xs arbitrary: acc) (auto simp: set_add_def)

lemma new_Set_distinct: "distinct xs \<Longrightarrow> new_Set xs = xs"
  using foldl_set_add_distinct [of "[]" xs] by (simp add: new_Set_def)

lemma set_slice_last: "set (slice_last n xs) \<subseteq> set xs"
  by (simp add: slice_last_def set_drop_subset)

lemma distinct_slice_last: "distinct xs \<Longrightarrow> distinct (slice_last n xs)"
  by (simp add: slice_last_def)

lemma newMessages_seen_entry:
  assumes "u @ '':'' @ t \<in> set seen"
  shows "newMessages seen (scrape (pre @ (u, t) # post)) = newMessages seen (scrape (pre @ post))"
  using assms by (simp add: newMessages_def scrape_def)

lemma tick_messages_seen_entry:
  assumes "u @ '':'' @ t \<in> set (lastMessages s)"
  shows "tick_messages lc s (Inr (pre @ (u, t) # post)) = tick_messages lc s (Inr (pre @ post))"
  using newMessages_seen_entry [OF assms] by (simp add: tick_messages_def)

lemma checkForTriggers_seen_entry:
  assumes "u @ '':'' @ t \<in> set (lastMessages s)"
  shows "checkForTriggers lc s hasChat (Inr (pre @ (u, t) # post))
           = checkForTriggers lc s hasChat (Inr (pre @ post))"
  using tick_messages_seen_entry [OF assms] by (simp add: checkForTriggers_def)

lemma newMessages_all_seen:
  assumes "\<forall>(u, t) \<in> set entries. u @ '':'' @ t \<in> set seen"
  shows "newMessages seen (scrape entries) = []"
  using assms by (auto simp: newMessages_def scrape_def filter_empty_conv)

lemma new_entry_in_newMessages:
  assumes "(u, t) \<in> set entries" and "u @ '':'' @ t \<notin> set seen"
  shows "\<lparr>msg_id = u @ '':'' @ t, username = u, msg_text = t\<rparr>
           \<in> set (newMessages seen (scrape entries))"
  using assms by (force simp: newMessages_def scrape_def)

lemma new_ids_recorded:
  assumes "m \<in> set new"
  shows "msg_id m \<in> set (update_lastMessages seen new)"
  using assms by (simp add: update_lastMessages_def set_new_Set)

lemma count_list_distinct: "distinct xs \<Longrightarrow> x \<in> set xs \<Longrightarrow> count_list xs x = 1"
  by (induction xs) auto

lemma new_Set_snoc: "new_Set (xs @ [x]) = set_add (new_Set xs) x"
  by (simp add: new_Set_def)

lemma last_in_slice_last:
  assumes "xs \<noteq> []" and "0 < n"
  shows "last xs \<in> set (slice_last n xs)"
proof -
  have "length xs - n < length xs" using assms by simp
  then have "drop (length xs - n) xs \<noteq> []" by simp
  then have "last (drop (length xs - n) xs) \<in> set (drop (length xs - n) xs)"
    by (rule last_in_set)
  moreover have "last (drop (length xs - n) xs) = last xs"
    using \<open>length xs - n < length xs\<close> by (simp add: last_drop)
  ultimately show ?thesis by (simp add: slice_last_def)
qed

lemma lastMessages_active_state: "lastMessages active_state = []"
  by code_simp

lemma distinct_many_ids: "distinct (map msg_id (scrape (many_entries n)))"
proof -
  have "inj_on (\<lambda>k. replicate (Suc k) CHR ''a'' @ '':hi'') {0..<n}"
  proof (rule inj_onI)
    fix j k
    assume "replicate (Suc j) CHR ''a'' @ '':hi'' = replicate (Suc k) CHR ''a'' @ '':hi''"
    then have "length (replicate (Suc j) CHR ''a'' @ '':hi'')
                 = length (replicate (Suc k) CHR ''a'' @ '':hi'')"
      by (rule arg_cong)
    then show "j = k" by simp
  qed
  moreover have "map msg_id (scrape (many_entries n))
                   = map (\<lambda>k. replicate (Suc k) CHR ''a'' @ '':hi'') [0..<n]"
    by (simp add: scrape_def many_entries_def comp_def)
  ultimately show ?thesis by (simp add: distinct_map)
qed

lemma first_tick_keeps_all:
  "lastMessages (fst (checkForTriggers ascii_toLowerCase active_state (Inr True) (Inr (many_entries n))))
     = map msg_id (scrape (many_entries n))"
proof -
  have m: "isMonitoring active_state" by code_simp
  have p: "page active_state" by code_simp
  show ?thesis
    by (simp add: checkForTriggers_update [OF m p] lastMessages_active_state newMessages_def
        update_lastMessages_def slice_last_def new_Set_distinct [OF distinct_many_ids])
qed

lemma colliding_entry_is_dropped:
  assumes "isMonitoring s" and "page s" and "u @ '':'' @ t \<notin> set (lastMessages s)"
    and "u' @ '':'' @ t' = u @ '':'' @ t"
  shows "checkForTriggers lc (fst (checkForTriggers lc s (Inr True) (Inr [(u, t)]))) (Inr True)
           (Inr [(u', t')])
         = ((fst (checkForTriggers lc s (Inr True) (Inr [(u, t)])))
              \<lparr>lastMessages :=
                 slice_last 50 (lastMessages (fst (checkForTriggers lc s (Inr True) (Inr [(u, t)]))))\<rparr>,
            [])"
    and "count_list (slice_last 50 (lastMessages (fst (checkForTriggers lc s (Inr True) (Inr [(u, t)])))))
           (u @ '':'' @ t) = 1"
proof -
  let ?i = "u @ '':'' @ t"
  let ?s1 = "fst (checkForTriggers lc s (Inr True) (Inr [(u, t)]))"
  let ?L = "new_Set (slice_last 50 (lastMessages s))"
  have notin: "?i \<notin> set ?L"
    using assms(3) set_slice_last [of 50 "lastMessages s"] by (auto simp: set_new_Set)
  have "lastMessages ?s1 = new_Set (slice_last 50 (lastMessages s) @ [?i])"
    using assms(3)
    by (simp add: checkForTriggers_update [OF assms(1,2)] newMessages_def scrape_def
        update_lastMessages_def)
  also have "\<dots> = ?L @ [?i]"
    using notin unfolding new_Set_snoc by (simp add: set_add_def)
  finally have L1: "lastMessages ?s1 = ?L @ [?i]" .
  have d1: "distinct (lastMessages ?s1)"
    unfolding L1 using notin distinct_new_Set [of "slice_last 50 (lastMessages s)"] by simp
  have m1: "isMonitoring ?s1" and p1: "page ?s1"
    by (simp_all add: checkForTriggers_update [OF assms(1,2)] assms(1,2))
  have seen: "u' @ '':'' @ t' \<in> set (lastMessages ?s1)"
    unfolding L1 assms(4) by simp
  have new: "newMessages (lastMessages ?s1) (scrape [(u', t')]) = []"
    using seen by (simp add: newMessages_def scrape_def)
  show "checkForTriggers lc ?s1 (Inr True) (Inr [(u', t')])
         = (?s1\<lparr>lastMessages := slice_last 50 (lastMessages ?s1)\<rparr>, [])"
    unfolding checkForTriggers_update [OF m1 p1] new
    by (simp add: update_lastMessages_def process_new_Nil
        new_Set_distinct [OF distinct_slice_last [OF d1]])
  have "last (lastMessages ?s1) \<in> set (slice_last 50 (lastMessages ?s1))"
    by (rule last_in_slice_last) (simp_all add: L1)
  then have "?i \<in> set (slice_last 50 (lastMessages ?s1))"
    by (simp add: L1)
  then show "count_list (slice_last 50 (lastMessages ?s1)) ?i = 1"
    using distinct_slice_last [OF d1, of 50] by (simp add: count_list_distinct)
qed


subsection \<open>Bounded memory\<close>

text \<open>
  Claim C3. Right after the update step of a tick the seen set holds at most 50 identities
  plus the number of new messages of that tick. The tick reaches its update step when the
  session is monitoring with a page, the chat is there and the sample is read; the
  bound holds from every state, so also after any number of ticks.
\<close>

theorem seen_set_bounded:
  assumes "isMonitoring s" and "page s"
  shows "length (lastMessages (fst (checkForTriggers lc s (Inr True) (Inr entries))))
           \<le> 50 + length (newMessages (lastMessages s) (scrape entries))"
  by (simp add: checkForTriggers_update [OF assms] length_update_lastMessages)

theorem seen_set_bounded_witness:
  "isMonitoring active_state \<and> page active_state \<and>
   length (lastMessages (fst (checkForTriggers ascii_toLowerCase active_state (Inr True)
             (Inr [(''alice'', ''any giveaway soon?''), (''bob'', ''hi'')]))))
     \<le> 50 + length (newMessages (lastMessages active_state)
                      (scrape [(''alice'', ''any giveaway soon?''), (''bob'', ''hi'')]))"
proof -
  have m: "isMonitoring active_state" by code_simp
  have p: "page active_state" by code_simp
  from m p seen_set_bounded [OF m p] show ?thesis by blast
qed

text \<open>
  What the update keeps when the seen set and the new identities have no repetition:
  the 50 most recent identities of the old set in their order, then the new ones in the
  order of arrival. The oldest identities are the ones that go.
\<close>

lemma update_keeps_recent_50:
  assumes "distinct seen" and "distinct (map msg_id new)"
    and "\<forall>m \<in> set new. msg_id m \<notin> set seen"
  shows "update_lastMessages seen new = drop (length seen - 50) seen @ map msg_id new"
proof -
  have "set (slice_last 50 seen) \<inter> set (map msg_id new) = {}"
    using assms(3) set_slice_last [of 50 seen] by auto
  then have "distinct (slice_last 50 seen @ map msg_id new)"
    using assms(1,2) by (simp add: distinct_slice_last)
  then show ?thesis
    by (simp add: update_lastMessages_def new_Set_distinct) (simp add: slice_last_def)
qed

text \<open>
  Claim C4. The seen set is cut to its 50 most recent identities before the additions of
  a tick, oldest first, and is said to hold at most 100 identities after every tick. The
  code's comment says the same (keep only the last 100), but nothing limits the number of
  additions: the first tick of a session whose page shows 101 different messages leaves
  101 identities in the set.
\<close>

theorem seen_set_exceeds_100:
  "length (lastMessages (fst (checkForTriggers ascii_toLowerCase active_state (Inr True)
             (Inr (many_entries 101))))) = 101"
  unfolding first_tick_keeps_all by (simp add: scrape_def many_entries_def)

subsection \<open>Deduplication\<close>

text \<open>
  Claim C1, as the code has it. \<open>checkForTriggers\<close> reads \<open>lastMessages\<close> in the
  synchronous part after its two \<open>await\<close>s. An entry whose identity is in the set at
  that moment gives no trigger event and no log event: the part run on the sample with
  the entry and on the sample without it ends in the same state with the same actions,
  and a sample of seen entries only gives no action. When nothing else runs during the
  \<open>await\<close>s the set at that moment is the set at the start of the tick, so the same
  holds for the whole tick; and a tick records the identity of every entry it treats as
  new, so the entry is silent in the tick that runs right after it.
\<close>

theorem seen_message_is_silent:
  "(u @ '':'' @ t \<in> set (lastMessages s) \<longrightarrow>
      tick_messages lc s (Inr (pre @ (u, t) # post)) = tick_messages lc s (Inr (pre @ post))
      \<and> checkForTriggers lc s hasChat (Inr (pre @ (u, t) # post))
          = checkForTriggers lc s hasChat (Inr (pre @ post)))
   \<and> (u @ '':'' @ t \<in> set (lastMessages (st c)) \<longrightarrow>
      step lc c (MessagesSettled i (Inr (pre @ (u, t) # post)))
        = step lc c (MessagesSettled i (Inr (pre @ post))))
   \<and> ((\<forall>(a, b) \<in> set entries. a @ '':'' @ b \<in> set (lastMessages s)) \<longrightarrow>
      snd (tick_messages lc s (Inr entries)) = []
      \<and> snd (checkForTriggers lc s (Inr True) (Inr entries)) = [])
   \<and> (isMonitoring s0 \<and> page s0 \<and> (u, t) \<in> set entries0
        \<and> u @ '':'' @ t \<notin> set (lastMessages s0) \<longrightarrow>
      checkForTriggers lc (fst (checkForTriggers lc s0 (Inr True) (Inr entries0))) hasChat
          (Inr (pre @ (u, t) # post))
        = checkForTriggers lc (fst (checkForTriggers lc s0 (Inr True) (Inr entries0))) hasChat
            (Inr (pre @ post)))"
proof (intro conjI impI)
  assume a: "u @ '':'' @ t \<in> set (lastMessages s)"
  show "tick_messages lc s (Inr (pre @ (u, t) # post)) = tick_messages lc s (Inr (pre @ post))"
    using a by (rule tick_messages_seen_entry)
  show "checkForTriggers lc s hasChat (Inr (pre @ (u, t) # post))
        = checkForTriggers lc s hasChat (Inr (pre @ post))"
    using a by (rule checkForTriggers_seen_entry)
next
  assume "u @ '':'' @ t \<in> set (lastMessages (st c))"
  then have "tick_messages lc (st c) (Inr (pre @ (u, t) # post))
               = tick_messages lc (st c) (Inr (pre @ post))"
    by (rule tick_messages_seen_entry)
  then show "step lc c (MessagesSettled i (Inr (pre @ (u, t) # post)))
        = step lc c (MessagesSettled i (Inr (pre @ post)))"
    by simp
next
  assume "\<forall>(a, b) \<in> set entries. a @ '':'' @ b \<in> set (lastMessages s)"
  then have n: "newMessages (lastMessages s) (scrape entries) = []"
    by (rule newMessages_all_seen)
  show "snd (tick_messages lc s (Inr entries)) = []"
    using n by (simp add: tick_messages_def process_new_Nil)
  show "snd (checkForTriggers lc s (Inr True) (Inr entries)) = []"
    using n
    by (simp add: checkForTriggers_def tick_hasChat_def tick_messages_def tick_begin_def
        process_new_Nil)
next
  let ?s1 = "fst (checkForTriggers lc s0 (Inr True) (Inr entries0))"
  assume a: "isMonitoring s0 \<and> page s0 \<and> (u, t) \<in> set entries0
    \<and> u @ '':'' @ t \<notin> set (lastMessages s0)"
  then have "\<lparr>msg_id = u @ '':'' @ t, username = u, msg_text = t\<rparr>
           \<in> set (newMessages (lastMessages s0) (scrape entries0))"
    using new_entry_in_newMessages [of u t entries0 "lastMessages s0"] by blast
  from new_ids_recorded [OF this] a
  have "u @ '':'' @ t \<in> set (lastMessages ?s1)"
    by (simp add: checkForTriggers_update)
  then show "checkForTriggers lc ?s1 hasChat (Inr (pre @ (u, t) # post))
        = checkForTriggers lc ?s1 hasChat (Inr (pre @ post))"
    by (rule checkForTriggers_seen_entry)
qed

text \<open>
  The scenario of the specification: alice's message was new in the first tick; the
  next tick, which returns it again together with bob's, treats it as absent, and so
  does a run that was suspended at its second \<open>await\<close> when the identity was recorded.
\<close>

theorem seen_message_is_silent_witness:
  "''alice'' @ '':'' @ ''any giveaway soon?'' \<in> set (lastMessages alice_seen_state)
   \<and> (isMonitoring active_state \<and> page active_state
        \<and> (''alice'', ''any giveaway soon?'') \<in> set [(''alice'', ''any giveaway soon?'')]
        \<and> ''alice'' @ '':'' @ ''any giveaway soon?'' \<notin> set (lastMessages active_state))
   \<and> tick_messages ascii_toLowerCase alice_seen_state
         (Inr ([] @ (''alice'', ''any giveaway soon?'') # [(''bob'', ''hi'')]))
       = tick_messages ascii_toLowerCase alice_seen_state (Inr ([] @ [(''bob'', ''hi'')]))
   \<and> checkForTriggers ascii_toLowerCase alice_seen_state (Inr True)
         (Inr ([] @ (''alice'', ''any giveaway soon?'') # [(''bob'', ''hi'')]))
       = checkForTriggers ascii_toLowerCase alice_seen_state (Inr True)
           (Inr ([] @ [(''bob'', ''hi'')]))
   \<and> step ascii_toLowerCase
         \<lparr>st = alice_seen_state, inflight = [AwaitMessages], performed = []\<rparr>
         (MessagesSettled 0 (Inr ([] @ (''alice'', ''any giveaway soon?'') # [(''bob'', ''hi'')])))
       = step ascii_toLowerCase
           \<lparr>st = alice_seen_state, inflight = [AwaitMessages], performed = []\<rparr>
           (MessagesSettled 0 (Inr ([] @ [(''bob'', ''hi'')])))
   \<and> snd (checkForTriggers ascii_toLowerCase alice_seen_state (Inr True)
         (Inr [(''alice'', ''any giveaway soon?'')])) = []
   \<and> snd (checkForTriggers ascii_toLowerCase active_state (Inr True)
         (Inr [(''alice'', ''any giveaway soon?'')]))
       = [Console ''[INFO] Trigger \"giveaway\" detected in message from alice'',
          Send 1 (LogMessage ''Trigger \"giveaway\" detected in message from alice'' ''info''),
          Send 1 (TriggerMessage ''giveaway'' ''alice: any giveaway soon?'')]"
proof -
  let ?c = "\<lparr>st = alice_seen_state, inflight = [AwaitMessages], performed = []\<rparr>"
  have first: "snd (checkForTriggers ascii_toLowerCase active_state (Inr True)
         (Inr [(''alice'', ''any giveaway soon?'')]))
       = [Console ''[INFO] Trigger \"giveaway\" detected in message from alice'',
          Send 1 (LogMessage ''Trigger \"giveaway\" detected in message from alice'' ''info''),
          Send 1 (TriggerMessage ''giveaway'' ''alice: any giveaway soon?'')]"
    by code_simp
  have h1: "''alice'' @ '':'' @ ''any giveaway soon?'' \<in> set (lastMessages alice_seen_state)"
    by code_simp
  have h1': "''alice'' @ '':'' @ ''any giveaway soon?'' \<in> set (lastMessages (st ?c))"
    using h1 by simp
  have h2: "\<forall>(a, b) \<in> set [(''alice'', ''any giveaway soon?'')].
         a @ '':'' @ b \<in> set (lastMessages alice_seen_state)"
    using h1 by simp
  have h3: "isMonitoring active_state \<and> page active_state
        \<and> (''alice'', ''any giveaway soon?'') \<in> set [(''alice'', ''any giveaway soon?'')]
        \<and> ''alice'' @ '':'' @ ''any giveaway soon?'' \<notin> set (lastMessages active_state)"
    by code_simp
  from h1 h1' h2 h3 first
    seen_message_is_silent [where u = "''alice''" and t = "''any giveaway soon?''"
      and s = alice_seen_state and lc = ascii_toLowerCase and hasChat = "Inr True"
      and pre = "[]" and post = "[(''bob'', ''hi'')]" and c = ?c and i = 0
      and entries = "[(''alice'', ''any giveaway soon?'')]"
      and ?s0.0 = active_state and ?entries0.0 = "[(''alice'', ''any giveaway soon?'')]"]
  show ?thesis by blast
qed

text \<open>
  Claim C1 as stated fails in two ways on a page that shows 51 messages. After the first
  tick zoe's identity is in the set. Two runs start on that state. The first to get its
  sample finds every entry seen and cuts the set to its last 50 identities, which drops
  zoe's, the oldest; the second then takes zoe's message for new and sends the trigger,
  although the identity was in the set when the run started. Without any overlap the
  third tick on the page does the same: the trigger is sent by the first tick and again
  by the third.
\<close>

theorem seen_identity_reported_again:
  "''zoe:giveaway'' \<in> set (lastMessages crowded_state)
   \<and> map_option (trigger_sends \<circ> performed)
       (run ascii_toLowerCase \<lparr>st = crowded_state, inflight = [], performed = []\<rparr>
          [Fire, Fire, HasChatSettled 0 (Inr True), HasChatSettled 1 (Inr True),
           MessagesSettled 0 (Inr crowded_page), MessagesSettled 0 (Inr crowded_page)])
       = Some [(1, ''giveaway'', ''zoe: giveaway'')]
   \<and> trigger_sends (snd (checkForTriggers ascii_toLowerCase active_state (Inr True)
         (Inr crowded_page)))
       = [(1, ''giveaway'', ''zoe: giveaway'')]
   \<and> trigger_sends (snd (checkForTriggers ascii_toLowerCase
         (fst (checkForTriggers ascii_toLowerCase crowded_state (Inr True) (Inr crowded_page)))
         (Inr True) (Inr crowded_page)))
       = [(1, ''giveaway'', ''zoe: giveaway'')]"
proof (intro conjI)
  show "''zoe:giveaway'' \<in> set (lastMessages crowded_state)"
    by code_simp
  show "map_option (trigger_sends \<circ> performed)
       (run ascii_toLowerCase \<lparr>st = crowded_state, inflight = [], performed = []\<rparr>
          [Fire, Fire, HasChatSettled 0 (Inr True), HasChatSettled 1 (Inr True),
           MessagesSettled 0 (Inr crowded_page), MessagesSettled 0 (Inr crowded_page)])
       = Some [(1, ''giveaway'', ''zoe: giveaway'')]"
    by code_simp
  show "trigger_sends (snd (checkForTriggers ascii_toLowerCase active_state (Inr True)
         (Inr crowded_page)))
       = [(1, ''giveaway'', ''zoe: giveaway'')]"
    by code_simp
  show "trigger_sends (snd (checkForTriggers ascii_toLowerCase
         (fst (checkForTriggers ascii_toLowerCase crowded_state (Inr True) (Inr crowded_page)))
         (Inr True) (Inr crowded_page)))
       = [(1, ''giveaway'', ''zoe: giveaway'')]"
    by code_simp
qed

text \<open>
  Claim C9. The identity is the username, a colon and the text, so different entries can
  have one identity: (a, b:c) and (a:b, c) both give a:b:c. Once a tick has processed the
  first as new, the tick that gets the second performs no action, and the identity is in
  the seen set once.
\<close>

theorem identity_collision:
  assumes "isMonitoring s" and "page s" and "''a:b:c'' \<notin> set (lastMessages s)"
  shows "(''a'', ''b:c'') \<noteq> (''a:b'', ''c'')
     \<and> map msg_id (scrape [(''a'', ''b:c''), (''a:b'', ''c'')]) = [''a:b:c'', ''a:b:c'']
     \<and> snd (checkForTriggers lc (fst (checkForTriggers lc s (Inr True) (Inr [(''a'', ''b:c'')])))
              (Inr True) (Inr [(''a:b'', ''c'')])) = []
     \<and> count_list
          (lastMessages
             (fst (checkForTriggers lc (fst (checkForTriggers lc s (Inr True) (Inr [(''a'', ''b:c'')])))
                     (Inr True) (Inr [(''a:b'', ''c'')]))))
          ''a:b:c'' = 1"
proof -
  have n: "''a'' @ '':'' @ ''b:c'' \<notin> set (lastMessages s)"
    using assms(3) by simp
  have e: "''a:b'' @ '':'' @ ''c'' = ''a'' @ '':'' @ ''b:c''"
    by simp
  note d = colliding_entry_is_dropped [OF assms(1,2) n e]
  have "count_list (slice_last 50
          (lastMessages (fst (checkForTriggers lc s (Inr True) (Inr [(''a'', ''b:c'')])))))
          ''a:b:c'' = 1"
    using d(2) by simp
  then show ?thesis
    unfolding d(1) by (simp add: scrape_def)
qed

text \<open>
  With the trigger word c both entries match; the first is reported, the second is not.
\<close>

theorem identity_collision_witness:
  "isMonitoring collision_state
   \<and> page collision_state
   \<and> ''a:b:c'' \<notin> set (lastMessages collision_state)
   \<and> Send 1 (TriggerMessage ''c'' ''a: b:c'')
       \<in> set (snd (checkForTriggers ascii_toLowerCase collision_state
                     (Inr True) (Inr [(''a'', ''b:c'')])))
   \<and> snd (checkForTriggers ascii_toLowerCase
            (fst (checkForTriggers ascii_toLowerCase collision_state
                    (Inr True) (Inr [(''a'', ''b:c'')])))
            (Inr True) (Inr [(''a:b'', ''c'')])) = []"
proof -
  let ?s = "collision_state"
  have m: "isMonitoring ?s" by code_simp
  have p: "page ?s" by code_simp
  have n: "''a:b:c'' \<notin> set (lastMessages ?s)" by code_simp
  have t: "Send 1 (TriggerMessage ''c'' ''a: b:c'')
       \<in> set (snd (checkForTriggers ascii_toLowerCase ?s (Inr True) (Inr [(''a'', ''b:c'')])))"
    by code_simp
  from m p n t identity_collision [OF m p n] show ?thesis by blast
qed


section \<open>Trigger matching\<close>

lemma includes_js_sublist: "includes_js s sub \<longleftrightarrow> sublist sub s"
  by (induction s) (auto simp: sublist_Cons_right)

lemma check_triggers_first:
  assumes "\<forall>p \<in> set pre. \<not> includes_js (lc (msg_text m)) (lc (word p))"
    and "includes_js (lc (msg_text m)) (lc (word t))"
  shows "check_triggers lc cs m (pre @ t # post) = detection cs m t"
  using assms by (induction pre) auto

lemma check_triggers_none:
  assumes "\<forall>p \<in> set ts. \<not> includes_js (lc (msg_text m)) (lc (word p))"
  shows "check_triggers lc cs m ts = []"
  using assms by (induction ts) auto

lemma check_triggers_some:
  assumes "includes_js (lc (msg_text m)) (lc (word t))"
  shows "\<exists>t' \<in> set (pre @ [t]). check_triggers lc cs m (pre @ t # post) = detection cs m t'"
  using assms by (induction pre) auto





lemma includes_js_empty: "includes_js s []"
  by (simp add: includes_js_sublist)

lemma detection_sends_trigger:
  assumes "c \<in> set cs" and "readyState c = OPEN"
  shows "Send (cid c) (TriggerMessage (word t) (username m @ '': '' @ msg_text m))
           \<in> set (detection cs m t)"
  using assms by (auto simp: detection_def broadcastMessage_def)

lemma process_messages_member:
  assumes "m \<in> set ms" and "a \<in> set (process_message lc cs ts m)"
  shows "a \<in> set (process_messages lc cs ts ms)"
  using assms by (auto simp: process_messages_def)



text \<open>
  Claim C10. The lower case of the empty string is the empty string, and every string
  includes it. So a trigger whose word is the empty string matches every message with a
  text:
  such a message is always reported, for the empty word unless an earlier word of the
  list matches, and whatever follows the empty word is never looked at. In a tick, every
  new entry with a text then reaches each open listener as a trigger message.
\<close>

theorem empty_word_matches_everything:
  assumes "word t = []" and "lc [] = []"
  shows "(msg_text m \<noteq> [] \<longrightarrow>
            (\<exists>t' \<in> set (pre @ [t]). process_message lc cs (pre @ t # post) m = detection cs m t'))
     \<and> (msg_text m \<noteq> []
          \<and> (\<forall>p \<in> set pre. \<not> sublist (lc (word p)) (lc (msg_text m))) \<longrightarrow>
            process_message lc cs (pre @ t # post) m
              = log cs (''Trigger \"\" detected in message from '' @ username m) ''info''
                @ broadcastMessage cs (TriggerMessage [] (username m @ '': '' @ msg_text m)))
     \<and> (isMonitoring s \<and> page s \<and> triggerWords s = Words (pre @ t # post)
          \<and> (u, x) \<in> set entries \<and> x \<noteq> [] \<and> u @ '':'' @ x \<notin> set (lastMessages s)
          \<and> c \<in> set (clients s) \<and> readyState c = OPEN \<longrightarrow>
            (\<exists>w. Send (cid c) (TriggerMessage w (u @ '': '' @ x))
                   \<in> set (snd (checkForTriggers lc s (Inr True) (Inr entries)))))"
proof (intro conjI impI)
  have inc: "includes_js (lc (msg_text m')) (lc (word t))" for m'
    using assms by (simp add: includes_js_empty)
  {
    assume "msg_text m \<noteq> []"
    then show "\<exists>t' \<in> set (pre @ [t]). process_message lc cs (pre @ t # post) m = detection cs m t'"
      using check_triggers_some [OF inc, where pre = pre and cs = cs and post = post and m = m]
      by (simp add: process_message_def)
  next
    assume "msg_text m \<noteq> []
          \<and> (\<forall>p \<in> set pre. \<not> sublist (lc (word p)) (lc (msg_text m)))"
    then have ne: "msg_text m \<noteq> []"
      and "\<forall>p \<in> set pre. \<not> includes_js (lc (msg_text m)) (lc (word p))"
      by (simp_all add: includes_js_sublist)
    then have "check_triggers lc cs m (pre @ t # post) = detection cs m t"
      using inc by (intro check_triggers_first)
    then have "process_message lc cs (pre @ t # post) m = detection cs m t"
      using ne by (simp add: process_message_def)
    then show "process_message lc cs (pre @ t # post) m
              = log cs (''Trigger \"\" detected in message from '' @ username m) ''info''
                @ broadcastMessage cs (TriggerMessage [] (username m @ '': '' @ msg_text m))"
      using assms by (simp add: detection_def)
  next
    let ?m = "\<lparr>msg_id = u @ '':'' @ x, username = u, msg_text = x\<rparr>"
    assume a: "isMonitoring s \<and> page s \<and> triggerWords s = Words (pre @ t # post)
          \<and> (u, x) \<in> set entries \<and> x \<noteq> [] \<and> u @ '':'' @ x \<notin> set (lastMessages s)
          \<and> c \<in> set (clients s) \<and> readyState c = OPEN"
    then have new: "?m \<in> set (newMessages (lastMessages s) (scrape entries))"
      using new_entry_in_newMessages [of u x entries "lastMessages s"] by blast
    from a obtain t' where
      "process_message lc (clients s) (pre @ t # post) ?m = detection (clients s) ?m t'"
      using check_triggers_some [OF inc, where pre = pre and cs = "clients s" and post = post
          and m = ?m]
      by (auto simp: process_message_def)
    moreover have "Send (cid c) (TriggerMessage (word t') (username ?m @ '': '' @ msg_text ?m))
           \<in> set (detection (clients s) ?m t')"
      using a by (intro detection_sends_trigger) auto
    ultimately have "Send (cid c) (TriggerMessage (word t') (u @ '': '' @ x))
           \<in> set (process_message lc (clients s) (pre @ t # post) ?m)"
      using a by simp
    from process_messages_member [OF new this] a
    have "Send (cid c) (TriggerMessage (word t') (u @ '': '' @ x))
                   \<in> set (snd (checkForTriggers lc s (Inr True) (Inr entries)))"
      by (simp add: checkForTriggers_update process_new_def)
    then show "\<exists>w. Send (cid c) (TriggerMessage w (u @ '': '' @ x))
                   \<in> set (snd (checkForTriggers lc s (Inr True) (Inr entries)))"
      by blast
  }
qed


theorem empty_word_matches_everything_witness:
  "word \<lparr>word = []\<rparr> = []
   \<and> ascii_toLowerCase [] = []
   \<and> msg_text \<lparr>msg_id = ''bob:hi'', username = ''bob'', msg_text = ''hi''\<rparr> \<noteq> []
   \<and> \<not> sublist (ascii_toLowerCase ''giveaway'') (ascii_toLowerCase ''hi'')
   \<and> sublist (ascii_toLowerCase ''hi'') (ascii_toLowerCase ''hi'')
   \<and> process_message ascii_toLowerCase [\<lparr>cid = 1, readyState = OPEN\<rparr>]
        ([\<lparr>word = ''giveaway''\<rparr>] @ \<lparr>word = []\<rparr> # [\<lparr>word = ''hi''\<rparr>])
        \<lparr>msg_id = ''bob:hi'', username = ''bob'', msg_text = ''hi''\<rparr>
       = log [\<lparr>cid = 1, readyState = OPEN\<rparr>]
           (''Trigger \"\" detected in message from '' @ ''bob'') ''info''
         @ broadcastMessage [\<lparr>cid = 1, readyState = OPEN\<rparr>]
             (TriggerMessage [] (''bob'' @ '': '' @ ''hi''))
   \<and> isMonitoring empty_word_state \<and> page empty_word_state
   \<and> triggerWords empty_word_state
       = Words ([\<lparr>word = ''giveaway''\<rparr>] @ \<lparr>word = []\<rparr> # [\<lparr>word = ''hi''\<rparr>])
   \<and> (''bob'', ''hi'') \<in> set [(''bob'', ''hi'')]
   \<and> ''bob'' @ '':'' @ ''hi'' \<notin> set (lastMessages empty_word_state)
   \<and> \<lparr>cid = 1, readyState = OPEN\<rparr> \<in> set (clients empty_word_state)
   \<and> (\<exists>w. Send 1 (TriggerMessage w (''bob'' @ '': '' @ ''hi''))
             \<in> set (snd (checkForTriggers ascii_toLowerCase empty_word_state (Inr True) (Inr [(''bob'', ''hi'')]))))"
proof -
  let ?m = "\<lparr>msg_id = ''bob:hi'', username = ''bob'', msg_text = ''hi''\<rparr>"
  let ?t = "\<lparr>word = []\<rparr>"
  let ?c = "\<lparr>cid = 1, readyState = OPEN\<rparr>"
  have w: "word ?t = []" by simp
  have l: "ascii_toLowerCase [] = []" by (simp add: ascii_toLowerCase_def)
  have ne: "msg_text ?m \<noteq> []" by simp
  have n: "\<not> sublist (ascii_toLowerCase ''giveaway'') (ascii_toLowerCase ''hi'')" by code_simp
  have y: "sublist (ascii_toLowerCase ''hi'') (ascii_toLowerCase ''hi'')" by simp
  have pre: "\<forall>p \<in> set [\<lparr>word = ''giveaway''\<rparr>].
               \<not> sublist (ascii_toLowerCase (word p)) (ascii_toLowerCase (msg_text ?m))"
    using n by simp
  have st: "isMonitoring empty_word_state" "page empty_word_state"
    "triggerWords empty_word_state
       = Words ([\<lparr>word = ''giveaway''\<rparr>] @ \<lparr>word = []\<rparr> # [\<lparr>word = ''hi''\<rparr>])"
    "''bob'' @ '':'' @ ''hi'' \<notin> set (lastMessages empty_word_state)"
    "?c \<in> set (clients empty_word_state)"
    by code_simp+
  have e: "(''bob'', ''hi'') \<in> set [(''bob'', ''hi'')]" "''hi'' \<noteq> []" "readyState ?c = OPEN"
    by simp_all
  note inst = empty_word_matches_everything [where lc = ascii_toLowerCase and t = ?t
      and m = ?m and pre = "[\<lparr>word = ''giveaway''\<rparr>]" and post = "[\<lparr>word = ''hi''\<rparr>]"
      and cs = "[?c]" and s = empty_word_state and u = "''bob''" and x = "''hi''"
      and entries = "[(''bob'', ''hi'')]" and c = ?c, OF w l]
  have a: "process_message ascii_toLowerCase [?c] ([\<lparr>word = ''giveaway''\<rparr>] @ ?t # [\<lparr>word = ''hi''\<rparr>]) ?m
       = log [?c] (''Trigger \"\" detected in message from '' @ ''bob'') ''info''
         @ broadcastMessage [?c] (TriggerMessage [] (''bob'' @ '': '' @ ''hi''))"
    using inst [THEN conjunct2, THEN conjunct1] ne pre by simp
  have b: "\<exists>w. Send 1 (TriggerMessage w (''bob'' @ '': '' @ ''hi''))
             \<in> set (snd (checkForTriggers ascii_toLowerCase empty_word_state (Inr True) (Inr [(''bob'', ''hi'')])))"
    using inst [THEN conjunct2, THEN conjunct2] st e by simp
  from w l ne n y a st e(1) b show ?thesis by blast
qed


section \<open>Listener messages\<close>



text \<open>
  Claim C8, as the code has it. A \<open>setTriggers\<close> message whose \<open>triggers\<close> are an array
  makes that array the trigger list of the process and is acknowledged to the listener
  it came from, and to no other: the only action is one \<open>send\<close> on that socket, of a log
  message whose text carries the number of triggers. The next sample is matched against
  the new words.
\<close>

theorem setTriggers_acknowledged:
  "triggerWords (fst (on_message s ws (SetTriggers (Words ts)))) = Words ts
   \<and> snd (on_message s ws (SetTriggers (Words ts)))
       = [Send ws (LogMessage
            (''Updated '' @ string_of_nat (length ts) @ '' trigger words'') ''info'')]
   \<and> (\<forall>c m. Send c m \<in> set (snd (on_message s ws (SetTriggers (Words ts)))) \<longrightarrow> c = ws)
   \<and> snd (tick_messages lc (fst (on_message s ws (SetTriggers (Words ts)))) (Inr entries))
       = process_messages lc (clients s) ts (newMessages (lastMessages s) (scrape entries))"
  by (simp add: on_message_def tick_messages_def process_new_def Let_def)

theorem setTriggers_acknowledged_witness:
  "triggerWords (fst (on_message listening_state 7
        (SetTriggers (Words [\<lparr>word = ''giveaway''\<rparr>, \<lparr>word = ''Help''\<rparr>]))))
     = Words [\<lparr>word = ''giveaway''\<rparr>, \<lparr>word = ''Help''\<rparr>]
   \<and> snd (on_message listening_state 7
        (SetTriggers (Words [\<lparr>word = ''giveaway''\<rparr>, \<lparr>word = ''Help''\<rparr>])))
     = [Send 7 (LogMessage ''Updated 2 trigger words'' ''info'')]
   \<and> trigger_sends (snd (tick_messages ascii_toLowerCase
        (fst (on_message listening_state 7
           (SetTriggers (Words [\<lparr>word = ''giveaway''\<rparr>, \<lparr>word = ''Help''\<rparr>]))))
        (Inr [(''bob'', ''help me'')])))
     = [(1, ''Help'', ''bob: help me'')]"
proof -
  let ?ts = "[\<lparr>word = ''giveaway''\<rparr>, \<lparr>word = ''Help''\<rparr>]"
  have n: "string_of_nat (length ?ts) = ''2''"
    by code_simp
  have p: "trigger_sends (process_messages ascii_toLowerCase (clients listening_state) ?ts
             (newMessages (lastMessages listening_state) (scrape [(''bob'', ''help me'')])))
           = [(1, ''Help'', ''bob: help me'')]"
    by code_simp
  note inst = setTriggers_acknowledged [of listening_state 7 ?ts ascii_toLowerCase
      "[(''bob'', ''help me'')]"]
  have a: "triggerWords (fst (on_message listening_state 7 (SetTriggers (Words ?ts))))
             = Words ?ts"
    using inst by blast
  have b: "snd (on_message listening_state 7 (SetTriggers (Words ?ts)))
             = [Send 7 (LogMessage ''Updated 2 trigger words'' ''info'')]"
    using inst n by simp
  have c: "trigger_sends (snd (tick_messages ascii_toLowerCase
             (fst (on_message listening_state 7 (SetTriggers (Words ?ts))))
             (Inr [(''bob'', ''help me'')])))
           = [(1, ''Help'', ''bob: help me'')]"
    using inst p by simp
  from a b c show ?thesis by blast
qed

text \<open>
  Claim C8 as stated fails for a \<open>setTriggers\<close> message that has no \<open>triggers\<close>:
  \<open>triggerWords\<close> becomes \<open>undefined\<close>, reading its \<open>length\<close> throws, and the listener
  gets no acknowledgment; the only action is the line on the server's console.
\<close>

theorem setTriggers_without_array:
  "triggerWords (fst (on_message listening_state 7 (SetTriggers Undefined))) = Undefined
   \<and> snd (on_message listening_state 7 (SetTriggers Undefined))
       = [ConsoleError
            ''Error processing message: Cannot read properties of undefined (reading 'length')'']"
  by (simp add: on_message_def)

section \<open>Stopping and starting\<close>









section \<open>The interval timer\<close>

lemma step_Fire_active:
  assumes "checkInterval (st c)" and "isMonitoring (st c)" and "page (st c)"
  shows "step lc c Fire = Some (c\<lparr>inflight := inflight c @ [AwaitHasChat]\<rparr>)"
  using assms by (simp add: tick_begin_def)

lemma sequential_run:
  assumes "checkInterval s" and "isMonitoring s" and "page s"
  shows "run lc \<lparr>st = s, inflight = [], performed = []\<rparr>
           [Fire, HasChatSettled 0 (Inr True), MessagesSettled 0 res]
         = Some \<lparr>st = fst (checkForTriggers lc s (Inr True) res), inflight = [],
                 performed = snd (checkForTriggers lc s (Inr True) res)\<rparr>"
  using assms
  by (simp add: tick_begin_def tick_hasChat_def checkForTriggers_def remove_nth_def
      split: prod.splits)


text \<open>
  Claim C5, as the code has it. Nothing in \<open>checkForTriggers\<close> or around \<open>setInterval\<close>
  records that a run is in progress. Every firing of the timer while the session is
  monitoring with a page starts a run, however many runs are suspended at an \<open>await\<close>:
  \<open>n\<close> firings with no promise settling in between add \<open>n\<close> runs in flight.
\<close>

theorem every_firing_starts_a_run:
  assumes "checkInterval (st c)" and "isMonitoring (st c)" and "page (st c)"
  shows "run lc c (replicate n Fire) = Some (c\<lparr>inflight := inflight c @ replicate n AwaitHasChat\<rparr>)"
  using assms
proof (induction n arbitrary: c)
  case 0
  then show ?case by simp
next
  case (Suc n)
  let ?c' = "c\<lparr>inflight := inflight c @ [AwaitHasChat]\<rparr>"
  have s: "step lc c Fire = Some ?c'"
    using Suc.prems by (rule step_Fire_active)
  have "run lc ?c' (replicate n Fire)
          = Some (?c'\<lparr>inflight := inflight ?c' @ replicate n AwaitHasChat\<rparr>)"
    using Suc.prems by (intro Suc.IH) simp_all
  then show ?case
    using s by (simp add: replicate_app_Cons_same)
qed


theorem every_firing_starts_a_run_witness:
  "checkInterval (st active_config) \<and> isMonitoring (st active_config)
   \<and> page (st active_config)
   \<and> run ascii_toLowerCase active_config (replicate 3 Fire)
       = Some (active_config\<lparr>inflight :=
                 inflight active_config @ replicate 3 AwaitHasChat\<rparr>)"
proof -
  have h: "checkInterval (st active_config)" "isMonitoring (st active_config)"
    "page (st active_config)"
    by code_simp+
  from h every_firing_starts_a_run [OF h, where n = 3 and lc = ascii_toLowerCase]
  show ?thesis by blast
qed

text \<open>
  Claim C5 as stated fails: two firings while the first run still waits for
  \<open>page.evaluate\<close> leave two runs in flight.
\<close>

theorem two_runs_in_flight:
  "map_option (length \<circ> inflight) (run ascii_toLowerCase active_config [Fire, Fire]) = Some 2"
  by code_simp


end
